theory Spec2Isabelle
  imports Main
begin

section \<open>Errors\<close>

text \<open>
  The exceptions the program can raise, as values. \<open>KeyError\<close> is raised by
  \<open>HashTable.get\<close> and \<open>HashTable.delete\<close> (the spec calls it KeyNotFound),
  \<open>ValueNotFound\<close> by the chain's delete, \<open>ZeroDivisionError\<close> by the \<open>%\<close> of
  \<open>_bucket_index\<close> on a table without buckets, \<open>IndexError\<close> by indexing the list of
  buckets out of range.
\<close>

datatype error = KeyError | ValueNotFound | ZeroDivisionError | IndexError

section \<open>Chain: the linked list of key-value pairs\<close>

type_synonym ('k, 'v) chain = "('k \<times> 'v) list"

text \<open>Modelled from the spec: the constructor of class LinkedList (module linkedlist, imported
  by hashtable.py, not among the sources). Chains are created empty.\<close>

definition LinkedList :: "('k, 'v) chain" where
  "LinkedList = []"

text \<open>Modelled from the spec: LinkedList.append (module linkedlist is not among the sources).
  It adds the entry at the tail and always succeeds.\<close>

definition chain_append :: "'k \<times> 'v \<Rightarrow> ('k, 'v) chain \<Rightarrow> ('k, 'v) chain" where
  "chain_append entry c = c @ [entry]"

text \<open>Modelled from the spec: LinkedList.delete (module linkedlist is not among the sources).
  It removes the first entry equal to the given pair and fails with ValueNotFound when no
  entry equals it.\<close>

definition chain_delete :: "'k \<times> 'v \<Rightarrow> ('k, 'v) chain \<Rightarrow> error + ('k, 'v) chain" where
  "chain_delete entry c = (if entry \<in> set c then Inr (remove1 entry c) else Inl ValueNotFound)"

text \<open>Modelled from the spec: LinkedList.items (module linkedlist is not among the sources).
  It produces the finite sequence of all pairs in insertion order, afresh at each call: the
  pairs the chain holds when it is called.\<close>

definition chain_items :: "('k, 'v) chain \<Rightarrow> ('k \<times> 'v) list" where
  "chain_items c = c"

text \<open>Modelled from the spec: LinkedList.length (module linkedlist is not among the sources).
  It counts the entries.\<close>

definition chain_length :: "('k, 'v) chain \<Rightarrow> nat" where
  "chain_length c = length c"

section \<open>HashTable\<close>

record ('k, 'v) hashtable =
  buckets :: "('k, 'v) chain list"

text \<open>\<open>__init__\<close>: one empty chain for each element of \<open>range(init_size)\<close>, which is empty
  when \<open>init_size\<close> is zero or negative. Nothing in it raises.\<close>

definition init :: "int \<Rightarrow> ('k, 'v) hashtable" where
  "init init_size = \<lparr>buckets = map (\<lambda>_. LinkedList) [0..<nat init_size]\<rparr>"

text \<open>\<open>HashTable()\<close>: the default \<open>init_size=8\<close>.\<close>

definition init_default :: "('k, 'v) hashtable" where
  "init_default = init 8"

text \<open>\<open>_bucket_index\<close>: \<open>hash(key) % len(self.buckets)\<close>. Python's \<open>hash\<close> is the parameter
  \<open>h\<close>. Python's \<open>%\<close> raises on a zero divisor and, for a positive divisor, gives the
  non-negative remainder, as \<open>mod\<close> on \<open>int\<close> does; the result is returned as a \<open>nat\<close>.\<close>

definition bucket_index :: "('k \<Rightarrow> int) \<Rightarrow> ('k, 'v) hashtable \<Rightarrow> 'k \<Rightarrow> error + nat" where
  "bucket_index h ht key =
     (if length (buckets ht) = 0 then Inl ZeroDivisionError
      else Inr (nat (h key mod int (length (buckets ht)))))"

text \<open>\<open>get_bucket\<close>: \<open>self.buckets[self._bucket_index(key)]\<close>. The source returns a reference
  to the chain inside the table; the model returns the index with the chain, so that what
  the caller does to the chain can be stored back where the reference points.\<close>

definition get_bucket ::
  "('k \<Rightarrow> int) \<Rightarrow> ('k, 'v) hashtable \<Rightarrow> 'k \<Rightarrow> error + (nat \<times> ('k, 'v) chain)" where
  "get_bucket h ht key =
     (case bucket_index h ht key of
        Inl e \<Rightarrow> Inl e
      | Inr i \<Rightarrow> if i < length (buckets ht) then Inr (i, buckets ht ! i) else Inl IndexError)"

text \<open>The effect of mutating the chain that \<open>get_bucket\<close> returned: the table holds the
  changed chain at the same index.\<close>

definition put_bucket :: "nat \<Rightarrow> ('k, 'v) chain \<Rightarrow> ('k, 'v) hashtable \<Rightarrow> ('k, 'v) hashtable" where
  "put_bucket i c ht = ht\<lparr>buckets := (buckets ht)[i := c]\<rparr>"

text \<open>\<open>keys\<close>, \<open>items\<close> and \<open>length\<close>: the iterations over the buckets, with their accumulators.\<close>

definition keys :: "('k, 'v) hashtable \<Rightarrow> 'k list" where
  "keys ht =
     foldl (\<lambda>all_keys bucket.
              foldl (\<lambda>acc (key, value). acc @ [key]) all_keys (chain_items bucket))
       [] (buckets ht)"

definition items :: "('k, 'v) hashtable \<Rightarrow> ('k \<times> 'v) list" where
  "items ht = foldl (\<lambda>all_items bucket. all_items @ chain_items bucket) [] (buckets ht)"

definition length_ht :: "('k, 'v) hashtable \<Rightarrow> nat" where
  "length_ht ht = foldl (\<lambda>size bucket. size + chain_length bucket) 0 (buckets ht)"

text \<open>\<open>contains\<close>: the scan of the key's bucket, returning at the first match.\<close>

fun contains_loop :: "'k \<Rightarrow> ('k \<times> 'v) list \<Rightarrow> bool" where
  "contains_loop key [] = False"
| "contains_loop key ((current_key, value) # rest) =
     (if current_key = key then True else contains_loop key rest)"

definition contains :: "('k \<Rightarrow> int) \<Rightarrow> ('k, 'v) hashtable \<Rightarrow> 'k \<Rightarrow> error + bool" where
  "contains h ht key =
     (case get_bucket h ht key of
        Inl e \<Rightarrow> Inl e
      | Inr (i, bucket) \<Rightarrow> Inr (contains_loop key (chain_items bucket)))"

text \<open>\<open>get\<close>: the same scan, returning the value of the first match; \<open>KeyError\<close> when the
  scan ends without one.\<close>

fun get_loop :: "'k \<Rightarrow> ('k \<times> 'v) list \<Rightarrow> error + 'v" where
  "get_loop key [] = Inl KeyError"
| "get_loop key ((current_key, value) # rest) =
     (if current_key = key then Inr value else get_loop key rest)"

definition get :: "('k \<Rightarrow> int) \<Rightarrow> ('k, 'v) hashtable \<Rightarrow> 'k \<Rightarrow> error + 'v" where
  "get h ht key =
     (case get_bucket h ht key of
        Inl e \<Rightarrow> Inl e
      | Inr (i, bucket) \<Rightarrow> get_loop key (chain_items bucket))"

text \<open>\<open>set\<close>. The loop runs over the pairs \<open>bucket.items()\<close> produced before the first
  mutation, and mutates the bucket itself: for each pair of the scan whose key matches, it
  deletes that pair from the bucket and appends the new pair. The loop returns the bucket
  as it is when the loop ends or raises, so that an exception leaves what was done before it.\<close>

fun set_loop ::
  "'k \<Rightarrow> 'v \<Rightarrow> ('k \<times> 'v) list \<Rightarrow> ('k, 'v) chain \<Rightarrow> (error + unit) \<times> ('k, 'v) chain" where
  "set_loop key value [] bucket = (Inr (), bucket)"
| "set_loop key value ((current_key, current_value) # rest) bucket =
     (if current_key = key then
        (case chain_delete (current_key, current_value) bucket of
           Inl e \<Rightarrow> (Inl e, bucket)
         | Inr bucket' \<Rightarrow> set_loop key value rest (chain_append (key, value) bucket'))
      else set_loop key value rest bucket)"

definition set_ht ::
  "('k \<Rightarrow> int) \<Rightarrow> ('k, 'v) hashtable \<Rightarrow> 'k \<Rightarrow> 'v \<Rightarrow> (error + unit) \<times> ('k, 'v) hashtable" where
  "set_ht h ht key value =
     (case get_bucket h ht key of
        Inl e \<Rightarrow> (Inl e, ht)
      | Inr (i, bucket) \<Rightarrow>
          (case contains h ht key of
             Inl e \<Rightarrow> (Inl e, ht)
           | Inr True \<Rightarrow>
               (case set_loop key value (chain_items bucket) bucket of
                  (r, bucket') \<Rightarrow> (r, put_bucket i bucket' ht))
           | Inr False \<Rightarrow> (Inr (), put_bucket i (chain_append (key, value) bucket) ht)))"

text \<open>\<open>delete\<close>: as \<open>set\<close>, without the append; \<open>KeyError\<close> when \<open>contains\<close> is false.\<close>

fun delete_loop ::
  "'k \<Rightarrow> ('k \<times> 'v) list \<Rightarrow> ('k, 'v) chain \<Rightarrow> (error + unit) \<times> ('k, 'v) chain" where
  "delete_loop key [] bucket = (Inr (), bucket)"
| "delete_loop key ((current_key, value) # rest) bucket =
     (if current_key = key then
        (case chain_delete (current_key, value) bucket of
           Inl e \<Rightarrow> (Inl e, bucket)
         | Inr bucket' \<Rightarrow> delete_loop key rest bucket')
      else delete_loop key rest bucket)"

definition delete ::
  "('k \<Rightarrow> int) \<Rightarrow> ('k, 'v) hashtable \<Rightarrow> 'k \<Rightarrow> (error + unit) \<times> ('k, 'v) hashtable" where
  "delete h ht key =
     (case get_bucket h ht key of
        Inl e \<Rightarrow> (Inl e, ht)
      | Inr (i, bucket) \<Rightarrow>
          (case contains h ht key of
             Inl e \<Rightarrow> (Inl e, ht)
           | Inr True \<Rightarrow>
               (case delete_loop key (chain_items bucket) bucket of
                  (r, bucket') \<Rightarrow> (r, put_bucket i bucket' ht))
           | Inr False \<Rightarrow> (Inl KeyError, ht)))"

section \<open>Sequences of calls\<close>

text \<open>A caller's \<open>set\<close> and \<open>delete\<close> calls, as \<open>test_hash_table\<close> makes them one after the other.
  \<open>run\<close> is a caller that goes on after a call has raised (the table is then as the call
  left it); \<open>set_calls\<close> and \<open>delete_calls\<close> stop at the first exception, as a loop without
  a handler does.\<close>

datatype ('k, 'v) call = Set_call 'k 'v | Delete_call 'k

fun apply_call :: "('k \<Rightarrow> int) \<Rightarrow> ('k, 'v) hashtable \<Rightarrow> ('k, 'v) call \<Rightarrow> ('k, 'v) hashtable" where
  "apply_call h ht (Set_call key value) = snd (set_ht h ht key value)"
| "apply_call h ht (Delete_call key) = snd (delete h ht key)"

definition run :: "('k \<Rightarrow> int) \<Rightarrow> ('k, 'v) call list \<Rightarrow> ('k, 'v) hashtable \<Rightarrow> ('k, 'v) hashtable" where
  "run h calls ht = foldl (apply_call h) ht calls"

fun set_calls ::
  "('k \<Rightarrow> int) \<Rightarrow> ('k \<times> 'v) list \<Rightarrow> ('k, 'v) hashtable \<Rightarrow> (error + unit) \<times> ('k, 'v) hashtable" where
  "set_calls h [] ht = (Inr (), ht)"
| "set_calls h ((key, value) # rest) ht =
     (case set_ht h ht key value of
        (Inl e, ht') \<Rightarrow> (Inl e, ht')
      | (Inr u, ht') \<Rightarrow> set_calls h rest ht')"

fun delete_calls ::
  "('k \<Rightarrow> int) \<Rightarrow> 'k list \<Rightarrow> ('k, 'v) hashtable \<Rightarrow> (error + unit) \<times> ('k, 'v) hashtable" where
  "delete_calls h [] ht = (Inr (), ht)"
| "delete_calls h (key # rest) ht =
     (case delete h ht key of
        (Inl e, ht') \<Rightarrow> (Inl e, ht')
      | (Inr u, ht') \<Rightarrow> delete_calls h rest ht')"



text \<open>The tables a program can hold: a new table, and what the calls that mutate leave,
  whether they return or raise.\<close>

inductive reachable :: "('k \<Rightarrow> int) \<Rightarrow> ('k, 'v) hashtable \<Rightarrow> bool" for h :: "'k \<Rightarrow> int" where
  reach_init: "reachable h (init init_size)"
| reach_set: "reachable h ht \<Longrightarrow> reachable h (snd (set_ht h ht key value))"
| reach_delete: "reachable h ht \<Longrightarrow> reachable h (snd (delete h ht key))"

section \<open>Notions used in the proofs\<close>

text \<open>The index of the key's bucket on a table that has buckets.\<close>

definition slot :: "('k \<Rightarrow> int) \<Rightarrow> ('k, 'v) hashtable \<Rightarrow> 'k \<Rightarrow> nat" where
  "slot h ht k = nat (h k mod int (length (buckets ht)))"

text \<open>What \<open>set\<close> leaves in the key's bucket, whatever the bucket held: the entries of the
  other keys in their order, then the new pair, once for each entry the key had and once
  at least.\<close>

definition after_set :: "'k \<Rightarrow> 'v \<Rightarrow> ('k, 'v) chain \<Rightarrow> ('k, 'v) chain" where
  "after_set k v b =
     filter (\<lambda>e. fst e \<noteq> k) b @ replicate (max 1 (length (filter (\<lambda>e. fst e = k) b))) (k, v)"

text \<open>The invariant of the reachable tables: no bucket holds a key twice, and every entry
  is in the bucket of its key.\<close>

definition unique_keys :: "('k, 'v) hashtable \<Rightarrow> bool" where
  "unique_keys ht = list_all (\<lambda>b. distinct (map fst b)) (buckets ht)"

definition well_placed :: "('k \<Rightarrow> int) \<Rightarrow> ('k, 'v) hashtable \<Rightarrow> bool" where
  "well_placed h ht =
     list_all (\<lambda>i. list_all (\<lambda>e. slot h ht (fst e) = i) (buckets ht ! i))
       [0..<length (buckets ht)]"

section \<open>The scans and the iterations over a bucket\<close>

lemma init_buckets: "buckets (init n) = replicate (nat n) []"
  by (simp add: init_def LinkedList_def map_replicate_const)

lemma foldl_keys_inner:
  "foldl (\<lambda>acc (key, value). acc @ [key]) acc xs = acc @ map fst xs"
  by (induction xs arbitrary: acc) (auto)

lemma foldl_keys_outer:
  "foldl (\<lambda>all_keys bucket. foldl (\<lambda>acc (key, value). acc @ [key]) all_keys (chain_items bucket)) acc bs
     = acc @ map fst (concat bs)"
  by (induction bs arbitrary: acc) (simp_all add: foldl_keys_inner chain_items_def)

lemma keys_concat: "keys ht = map fst (concat (buckets ht))"
  by (simp add: keys_def foldl_keys_outer)

lemma foldl_items: "foldl (\<lambda>all_items bucket. all_items @ chain_items bucket) acc bs = acc @ concat bs"
  by (induction bs arbitrary: acc) (simp_all add: chain_items_def)

lemma items_concat: "items ht = concat (buckets ht)"
  by (simp add: items_def foldl_items)

lemma foldl_length:
  "foldl (\<lambda>size bucket. size + chain_length bucket) acc bs = acc + sum_list (map length bs)"
  by (induction bs arbitrary: acc) (simp_all add: chain_length_def)

lemma length_ht_sum: "length_ht ht = sum_list (map length (buckets ht))"
  by (simp add: length_ht_def foldl_length)

lemma contains_loop_iff: "contains_loop k xs = (k \<in> fst ` set xs)"
  by (induction xs) (auto)

lemma filter_remove1_head:
  assumes "filter P xs = x # ys"
  shows "filter P (remove1 x xs) = ys"
proof -
  from assms [symmetric] obtain us vs where
    xs: "xs = us @ x # vs" and us: "\<forall>u\<in>set us. \<not> P u" and x: "P x" and ys: "ys = filter P vs"
    by (auto dest: Cons_eq_filterD)
  from us x have "x \<notin> set us" by auto
  with xs have "remove1 x xs = us @ vs" by (simp add: remove1_append)
  with us ys show ?thesis by simp
qed

lemma filter_remove1_other: "P x \<Longrightarrow> filter (\<lambda>y. \<not> P y) (remove1 x xs) = filter (\<lambda>y. \<not> P y) xs"
  by (induction xs) auto

lemma filter_head_mem: "filter P xs = x # ys \<Longrightarrow> x \<in> set xs"
  by (induction xs) (auto split: if_splits)

lemma set_loop_gen:
  "filter (\<lambda>e. fst e = k) xs = filter (\<lambda>e. fst e = k) rest \<Longrightarrow>
   set_loop k v rest (xs @ replicate j (k, v)) =
     (Inr (), filter (\<lambda>e. fst e \<noteq> k) xs @ replicate (j + length (filter (\<lambda>e. fst e = k) rest)) (k, v))"
proof (induction rest arbitrary: xs j)
  case Nil
  then have "filter (\<lambda>e. fst e \<noteq> k) xs = xs"
    by (simp add: filter_empty_conv)
  then show ?case by simp
next
  case (Cons e rest)
  obtain ck cv where e: "e = (ck, cv)" by (cases e)
  show ?case
  proof (cases "ck = k")
    case False
    with Cons e show ?thesis by simp
  next
    case True
    from Cons.prems e True have hd: "filter (\<lambda>e. fst e = k) xs = (k, cv) # filter (\<lambda>e. fst e = k) rest"
      by simp
    then have mem: "(k, cv) \<in> set xs" by (rule filter_head_mem)
    have f1: "filter (\<lambda>e. fst e = k) (remove1 (k, cv) xs) = filter (\<lambda>e. fst e = k) rest"
      using hd by (rule filter_remove1_head)
    have f2: "filter (\<lambda>e. fst e \<noteq> k) (remove1 (k, cv) xs) = filter (\<lambda>e. fst e \<noteq> k) xs"
      using filter_remove1_other [of "\<lambda>e. fst e = k" "(k, cv)" xs] by simp
    have step: "chain_append (k, v) (remove1 (k, cv) (xs @ replicate j (k, v)))
        = remove1 (k, cv) xs @ replicate (Suc j) (k, v)"
      using mem by (simp add: chain_append_def remove1_append replicate_append_same)
    show ?thesis
      using e True mem Cons.IH [OF f1, of "Suc j"] f2
      by (simp add: chain_delete_def step del: replicate_Suc)
  qed
qed

lemma set_loop_self:
  "set_loop k v b b =
     (Inr (), filter (\<lambda>e. fst e \<noteq> k) b @ replicate (length (filter (\<lambda>e. fst e = k) b)) (k, v))"
  using set_loop_gen [of k b b v 0] by simp

lemma delete_loop_gen:
  "filter (\<lambda>e. fst e = k) xs = filter (\<lambda>e. fst e = k) rest \<Longrightarrow>
   delete_loop k rest xs = (Inr (), filter (\<lambda>e. fst e \<noteq> k) xs)"
proof (induction rest arbitrary: xs)
  case Nil
  then have "filter (\<lambda>e. fst e \<noteq> k) xs = xs"
    by (simp add: filter_empty_conv)
  then show ?case by simp
next
  case (Cons e rest)
  obtain ck cv where e: "e = (ck, cv)" by (cases e)
  show ?case
  proof (cases "ck = k")
    case False
    with Cons e show ?thesis by simp
  next
    case True
    from Cons.prems e True have hd: "filter (\<lambda>e. fst e = k) xs = (k, cv) # filter (\<lambda>e. fst e = k) rest"
      by simp
    then have mem: "(k, cv) \<in> set xs" by (rule filter_head_mem)
    have f1: "filter (\<lambda>e. fst e = k) (remove1 (k, cv) xs) = filter (\<lambda>e. fst e = k) rest"
      using hd by (rule filter_remove1_head)
    have f2: "filter (\<lambda>e. fst e \<noteq> k) (remove1 (k, cv) xs) = filter (\<lambda>e. fst e \<noteq> k) xs"
      using filter_remove1_other [of "\<lambda>e. fst e = k" "(k, cv)" xs] by simp
    show ?thesis
      using e True mem Cons.IH [OF f1] f2
      by (simp add: chain_delete_def)
  qed
qed

lemma delete_loop_self: "delete_loop k b b = (Inr (), filter (\<lambda>e. fst e \<noteq> k) b)"
  by (rule delete_loop_gen) simp

section \<open>The operations on a table with buckets, and on one without\<close>

lemma slot_less: "buckets ht \<noteq> [] \<Longrightarrow> slot h ht k < length (buckets ht)"
  by (simp add: slot_def nat_less_iff)

lemma get_bucket_some:
  "buckets ht \<noteq> [] \<Longrightarrow> get_bucket h ht k = Inr (slot h ht k, buckets ht ! slot h ht k)"
  using slot_less [of ht h k] by (simp add: get_bucket_def bucket_index_def slot_def)

lemma get_bucket_none: "buckets ht = [] \<Longrightarrow> get_bucket h ht k = Inl ZeroDivisionError"
  by (simp add: get_bucket_def bucket_index_def)

lemma buckets_put [simp]: "buckets (put_bucket i c ht) = (buckets ht)[i := c]"
  by (simp add: put_bucket_def)

lemma slot_put [simp]: "slot h (put_bucket i c ht) k = slot h ht k"
  by (simp add: slot_def)

lemma contains_some:
  "buckets ht \<noteq> [] \<Longrightarrow> contains h ht k = Inr (k \<in> fst ` set (buckets ht ! slot h ht k))"
  by (simp add: contains_def get_bucket_some contains_loop_iff chain_items_def)

lemma get_some:
  "buckets ht \<noteq> [] \<Longrightarrow> get h ht k = get_loop k (buckets ht ! slot h ht k)"
  by (simp add: get_def get_bucket_some chain_items_def)

lemma contains_none: "buckets ht = [] \<Longrightarrow> contains h ht k = Inl ZeroDivisionError"
  by (simp add: contains_def get_bucket_none)

lemma get_none: "buckets ht = [] \<Longrightarrow> get h ht k = Inl ZeroDivisionError"
  by (simp add: get_def get_bucket_none)

lemma set_ht_none: "buckets ht = [] \<Longrightarrow> set_ht h ht k v = (Inl ZeroDivisionError, ht)"
  by (simp add: set_ht_def get_bucket_none)

lemma delete_none: "buckets ht = [] \<Longrightarrow> delete h ht k = (Inl ZeroDivisionError, ht)"
  by (simp add: delete_def get_bucket_none)

lemma filter_key_empty: "k \<notin> fst ` set b \<Longrightarrow> filter (\<lambda>e. fst e = k) b = [] \<and> filter (\<lambda>e. fst e \<noteq> k) b = b"
  by (induction b) auto

lemma filter_key_nonempty:
  assumes "k \<in> fst ` set b"
  shows "max 1 (length (filter (\<lambda>e. fst e = k) b)) = length (filter (\<lambda>e. fst e = k) b)"
proof -
  from assms have "filter (\<lambda>e. fst e = k) b \<noteq> []"
    by (auto simp: filter_empty_conv)
  then show ?thesis by (cases "filter (\<lambda>e. fst e = k) b") auto
qed

lemma set_ht_some:
  assumes "buckets ht \<noteq> []"
  shows "set_ht h ht k v =
           (Inr (), put_bucket (slot h ht k) (after_set k v (buckets ht ! slot h ht k)) ht)"
proof (cases "k \<in> fst ` set (buckets ht ! slot h ht k)")
  case True
  with assms show ?thesis
    by (simp add: set_ht_def get_bucket_some contains_some chain_items_def set_loop_self
        after_set_def filter_key_nonempty del: One_nat_def)
next
  case False
  with assms filter_key_empty [OF False] show ?thesis
    by (simp add: set_ht_def get_bucket_some contains_some chain_append_def after_set_def)
qed

lemma delete_some:
  assumes "buckets ht \<noteq> []"
  shows "delete h ht k =
           (if k \<in> fst ` set (buckets ht ! slot h ht k)
            then (Inr (), put_bucket (slot h ht k)
                            (filter (\<lambda>e. fst e \<noteq> k) (buckets ht ! slot h ht k)) ht)
            else (Inl KeyError, ht))"
  using assms
  by (simp add: delete_def get_bucket_some contains_some chain_items_def delete_loop_self)

lemma get_loop_after_set: "get_loop k (after_set k v b) = Inr v"
proof -
  have "get_loop k (xs @ replicate (Suc n) (k, v)) = Inr v" if "k \<notin> fst ` set xs" for xs n
    using that by (induction xs) auto
  from this [of "filter (\<lambda>e. fst e \<noteq> k) b" "max 1 (length (filter (\<lambda>e. fst e = k) b)) - 1"]
  show ?thesis by (auto simp: after_set_def)
qed

lemma keys_after_set: "fst ` set (after_set k v b) = insert k (fst ` set b)"
  by (auto simp: after_set_def image_iff)

lemma length_after_set_present:
  "k \<in> fst ` set b \<Longrightarrow> length (after_set k v b) = length b"
  using filter_key_nonempty [of k b] sum_length_filter_compl [of "\<lambda>e. fst e = k" b]
  by (simp add: after_set_def del: One_nat_def)

lemma length_after_set_absent:
  "k \<notin> fst ` set b \<Longrightarrow> after_set k v b = b @ [(k, v)]"
  using filter_key_empty [of k b] by (simp add: after_set_def)

lemma set_get_contains:
  "buckets ht \<noteq> [] \<Longrightarrow>
   \<exists>ht'. set_ht h ht k v = (Inr (), ht') \<and> get h ht' k = Inr v \<and> contains h ht' k = Inr True"
  using slot_less [of ht h k]
  by (simp add: set_ht_some get_some contains_some get_loop_after_set keys_after_set)

lemma sum_list_length_update:
  "i < length bs \<Longrightarrow> sum_list (map length (bs[i := c])) + length (bs ! i) = sum_list (map length bs) + length c"
proof (induction bs arbitrary: i)
  case Nil
  then show ?case by simp
next
  case (Cons b bs)
  then show ?case by (cases i) auto
qed

section \<open>The invariant\<close>

lemma unique_keys_nth: "unique_keys ht \<longleftrightarrow> (\<forall>i<length (buckets ht). distinct (map fst (buckets ht ! i)))"
  by (simp add: unique_keys_def list_all_length)

lemma well_placed_nth:
  "well_placed h ht \<longleftrightarrow> (\<forall>i<length (buckets ht). \<forall>e\<in>set (buckets ht ! i). slot h ht (fst e) = i)"
  by (auto simp: well_placed_def list_all_iff)

lemma distinct_after_set: "distinct (map fst b) \<Longrightarrow> distinct (map fst (after_set k v b))"
proof (cases "k \<in> fst ` set b")
  case False
  assume "distinct (map fst b)"
  with False show ?thesis by (simp add: length_after_set_absent)
next
  case True
  assume d: "distinct (map fst b)"
  have "length (filter (\<lambda>e. fst e = k) b) \<le> 1"
    using d by (induction b) (auto simp: filter_key_empty)
  with filter_key_nonempty [OF True] have "max 1 (length (filter (\<lambda>e. fst e = k) b)) = 1"
    by simp
  with d show ?thesis
    by (auto simp: after_set_def distinct_map_filter)
qed

lemma unique_keys_set: "unique_keys ht \<Longrightarrow> unique_keys (snd (set_ht h ht k v))"
proof (cases "buckets ht = []")
  case True
  assume "unique_keys ht"
  with True show ?thesis by (simp add: set_ht_none)
next
  case False
  assume "unique_keys ht"
  with False slot_less [OF False, of h k] show ?thesis
    by (auto simp: set_ht_some unique_keys_nth nth_list_update distinct_after_set)
qed

lemma unique_keys_delete: "unique_keys ht \<Longrightarrow> unique_keys (snd (delete h ht k))"
proof (cases "buckets ht = []")
  case True
  assume "unique_keys ht"
  with True show ?thesis by (simp add: delete_none)
next
  case False
  assume "unique_keys ht"
  with False slot_less [OF False, of h k] show ?thesis
    by (auto simp: delete_some unique_keys_nth nth_list_update distinct_map_filter)
qed

lemma well_placed_set: "well_placed h ht \<Longrightarrow> well_placed h (snd (set_ht h ht k v))"
proof (cases "buckets ht = []")
  case True
  assume "well_placed h ht"
  with True show ?thesis by (simp add: set_ht_none)
next
  case False
  assume "well_placed h ht"
  with False slot_less [OF False, of h k] show ?thesis
    by (auto simp: set_ht_some well_placed_nth nth_list_update after_set_def split: if_splits)
qed

lemma well_placed_delete: "well_placed h ht \<Longrightarrow> well_placed h (snd (delete h ht k))"
proof (cases "buckets ht = []")
  case True
  assume "well_placed h ht"
  with True show ?thesis by (simp add: delete_none)
next
  case False
  assume "well_placed h ht"
  with False slot_less [OF False, of h k] show ?thesis
    by (auto simp: delete_some well_placed_nth nth_list_update split: if_splits)
qed

lemma unique_keys_init: "unique_keys (init n)"
  by (simp add: unique_keys_nth init_buckets)

lemma well_placed_init: "well_placed h (init n)"
  by (simp add: well_placed_nth init_buckets)

lemma reachable_inv: "reachable h ht \<Longrightarrow> unique_keys ht \<and> well_placed h ht"
  by (induction rule: reachable.induct)
    (simp_all add: unique_keys_init well_placed_init unique_keys_set unique_keys_delete
      well_placed_set well_placed_delete)

lemma distinct_concat_placed:
  "(\<forall>i<length bs. distinct (map fst (bs ! i)) \<and> (\<forall>e\<in>set (bs ! i). f (fst e) = i + off)) \<Longrightarrow>
   distinct (map fst (concat bs)) \<and> (\<forall>e\<in>set (concat bs). off \<le> f (fst e))"
proof (induction bs arbitrary: off)
  case Nil
  then show ?case by simp
next
  case (Cons b bs)
  from Cons.prems have b: "distinct (map fst b)" "\<forall>e\<in>set b. f (fst e) = off"
    by (force)+
  have "\<forall>i<length bs. distinct (map fst (bs ! i)) \<and> (\<forall>e\<in>set (bs ! i). f (fst e) = i + Suc off)"
  proof (intro allI impI)
    fix i assume "i < length bs"
    with Cons.prems [rule_format, of "Suc i"] show
      "distinct (map fst (bs ! i)) \<and> (\<forall>e\<in>set (bs ! i). f (fst e) = i + Suc off)"
      by simp
  qed
  from Cons.IH [OF this]
  have rest: "distinct (map fst (concat bs))" "\<forall>e\<in>set (concat bs). Suc off \<le> f (fst e)"
    by blast+
  from b(2) rest(2) have "fst ` set b \<inter> fst ` set (concat bs) = {}"
    by (fastforce)
  with b rest show ?case
    by (auto simp del: set_concat)
qed

lemma inv_distinct_keys: "unique_keys ht \<Longrightarrow> well_placed h ht \<Longrightarrow> distinct (keys ht)"
  using distinct_concat_placed [of "buckets ht" "slot h ht" 0]
  by (simp add: keys_concat unique_keys_nth well_placed_nth)

lemma reachable_distinct_keys: "reachable h ht \<Longrightarrow> distinct (keys ht)"
  by (blast dest: reachable_inv intro: inv_distinct_keys)

section \<open>Length and membership after a call\<close>

lemma length_ht_put:
  "i < length (buckets ht) \<Longrightarrow>
   length_ht (put_bucket i c ht) + length (buckets ht ! i) = length_ht ht + length c"
  by (simp add: length_ht_sum sum_list_length_update)

lemma set_ht_ok_buckets: "set_ht h ht k v = (Inr (), ht') \<Longrightarrow> buckets ht \<noteq> []"
  by (auto simp: set_ht_none)

lemma set_present_length:
  assumes "buckets ht \<noteq> []" and "k \<in> fst ` set (buckets ht ! slot h ht k)"
  shows "length_ht (snd (set_ht h ht k v)) = length_ht ht"
  using assms length_ht_put [OF slot_less [OF assms(1)], of h k "after_set k v (buckets ht ! slot h ht k)"]
  by (simp add: set_ht_some length_after_set_present)

lemma set_absent_length:
  assumes "buckets ht \<noteq> []" and "k \<notin> fst ` set (buckets ht ! slot h ht k)"
  shows "length_ht (snd (set_ht h ht k v)) = Suc (length_ht ht)"
  using assms length_ht_put [OF slot_less [OF assms(1)], of h k "after_set k v (buckets ht ! slot h ht k)"]
  by (simp add: set_ht_some length_after_set_absent)

lemma contains_after_set:
  assumes "buckets ht \<noteq> []"
  shows "contains h (snd (set_ht h ht k' v)) k
           = Inr (k = k' \<or> k \<in> fst ` set (buckets ht ! slot h ht k))"
proof (cases "slot h ht k = slot h ht k'")
  case True
  with assms slot_less [OF assms, of h k'] show ?thesis
    by (simp add: set_ht_some contains_some keys_after_set)
next
  case False
  then have "k \<noteq> k'" by auto
  with False assms show ?thesis
    by (simp add: set_ht_some contains_some)
qed

lemma keys_filter_other: "fst ` set (filter (\<lambda>e. fst e \<noteq> k') b) = fst ` set b - {k'}"
  by auto

lemma contains_after_delete:
  assumes "buckets ht \<noteq> []"
  shows "contains h (snd (delete h ht k')) k
           = Inr (k \<noteq> k' \<and> k \<in> fst ` set (buckets ht ! slot h ht k))"
proof (cases "k' \<in> fst ` set (buckets ht ! slot h ht k')")
  case False
  with assms show ?thesis
    by (auto simp: delete_some contains_some)
next
  case present: True
  show ?thesis
  proof (cases "slot h ht k = slot h ht k'")
    case True
    with assms present slot_less [OF assms, of h k'] show ?thesis
      by (simp add: delete_some contains_some keys_filter_other del: set_filter) blast
  next
    case False
    then have "k \<noteq> k'" by auto
    with False assms present show ?thesis
      by (simp add: delete_some contains_some)
  qed
qed


lemma set_buckets_length: "length (buckets (snd (set_ht h ht k v))) = length (buckets ht)"
  by (cases "buckets ht = []") (simp_all add: set_ht_none set_ht_some)

lemma delete_buckets_length: "length (buckets (snd (delete h ht k))) = length (buckets ht)"
  by (cases "buckets ht = []") (simp_all add: delete_none delete_some)

lemma delete_present_length:
  assumes "buckets ht \<noteq> []" and "unique_keys ht" and "k \<in> fst ` set (buckets ht ! slot h ht k)"
  shows "delete h ht k = (Inr (), snd (delete h ht k)) \<and> Suc (length_ht (snd (delete h ht k))) = length_ht ht"
proof -
  let ?b = "buckets ht ! slot h ht k"
  from assms(2) slot_less [OF assms(1), of h k] have d: "distinct (map fst ?b)"
    by (simp add: unique_keys_nth)
  have "distinct (map fst b) \<Longrightarrow> k \<in> fst ` set b \<Longrightarrow> Suc (length (filter (\<lambda>e. fst e \<noteq> k) b)) = length b"
    for b :: "('a \<times> 'b) list"
    by (induction b) (auto simp: filter_key_empty)
  from this [OF d assms(3)] assms(1,3) length_ht_put [OF slot_less [OF assms(1)], of h k "filter (\<lambda>e. fst e \<noteq> k) ?b"]
  show ?thesis by (simp add: delete_some)
qed



section \<open>Sequences of calls: membership and length\<close>





lemma init_nonempty: "0 < n \<Longrightarrow> buckets (init n) \<noteq> []"
  by (simp add: init_buckets)

lemma init_bucket_empty: "i < length (buckets (init n)) \<Longrightarrow> buckets (init n) ! i = []"
  by (simp add: init_buckets)



lemma length_ht_init: "length_ht (init n) = 0"
  by (simp add: length_ht_sum init_buckets)

lemma set_calls_fresh:
  "buckets ht \<noteq> [] \<Longrightarrow> unique_keys ht \<Longrightarrow> distinct (map fst kvs) \<Longrightarrow>
   \<forall>k\<in>fst ` set kvs. contains h ht k = Inr False \<Longrightarrow>
   \<exists>ht1. set_calls h kvs ht = (Inr (), ht1) \<and> buckets ht1 \<noteq> [] \<and> unique_keys ht1 \<and>
         length_ht ht1 = length_ht ht + length kvs \<and>
         (\<forall>k. contains h ht1 k = Inr (k \<in> fst ` set kvs \<or> contains h ht k = Inr True))"
proof (induction kvs arbitrary: ht)
  case Nil
  then show ?case by (simp add: contains_some)
next
  case (Cons kv kvs)
  obtain k v where kv: "kv = (k, v)" by (cases kv)
  let ?ht' = "snd (set_ht h ht k v)"
  obtain ht' where step: "set_ht h ht k v = (Inr (), ht')" and ht': "ht' = ?ht'"
    using Cons.prems(1) by (simp add: set_ht_some)
  from Cons.prems(1) have ne: "buckets ?ht' \<noteq> []"
    using set_buckets_length [of h ht k v] by auto
  from Cons.prems(2) have uq: "unique_keys ?ht'" by (rule unique_keys_set)
  from Cons.prems(4) kv have "contains h ht k = Inr False" by simp
  with Cons.prems(1) have absent: "k \<notin> fst ` set (buckets ht ! slot h ht k)"
    by (simp add: contains_some)
  then have len: "length_ht ?ht' = Suc (length_ht ht)"
    using Cons.prems(1) by (simp add: set_absent_length)
  have fresh: "\<forall>k'\<in>fst ` set kvs. contains h ?ht' k' = Inr False"
  proof
    fix k' assume k': "k' \<in> fst ` set kvs"
    with Cons.prems(3) kv have "k' \<noteq> k" by auto
    moreover from k' Cons.prems(4) have "contains h ht k' = Inr False" by auto
    ultimately show "contains h ?ht' k' = Inr False"
      using Cons.prems(1) by (simp add: contains_after_set contains_some)
  qed
  from Cons.prems(3) have "distinct (map fst kvs)" by simp
  from Cons.IH [OF ne uq this fresh] obtain ht1 where
    ht1: "set_calls h kvs ?ht' = (Inr (), ht1)" "buckets ht1 \<noteq> []" "unique_keys ht1"
      "length_ht ht1 = length_ht ?ht' + length kvs"
      "\<forall>k'. contains h ht1 k' = Inr (k' \<in> fst ` set kvs \<or> contains h ?ht' k' = Inr True)"
    by blast
  have run: "set_calls h (kv # kvs) ht = (Inr (), ht1)"
    using kv ht1(1) by (simp add: step ht' [symmetric])
  have all: "\<forall>k'. contains h ht1 k' = Inr (k' \<in> fst ` set (kv # kvs) \<or> contains h ht k' = Inr True)"
    using ht1(5) kv Cons.prems(1) by (auto simp: contains_after_set contains_some)
  from run ht1(2,3) ht1(4) len all show ?case by simp
qed

lemma delete_calls_present:
  "buckets ht \<noteq> [] \<Longrightarrow> unique_keys ht \<Longrightarrow> distinct ds \<Longrightarrow>
   \<forall>k\<in>set ds. contains h ht k = Inr True \<Longrightarrow>
   \<exists>ht2. delete_calls h ds ht = (Inr (), ht2) \<and> length_ht ht2 + length ds = length_ht ht"
proof (induction ds arbitrary: ht)
  case Nil
  then show ?case by simp
next
  case (Cons k ds)
  let ?ht' = "snd (delete h ht k)"
  from Cons.prems(4) have "contains h ht k = Inr True" by simp
  with Cons.prems(1) have present: "k \<in> fst ` set (buckets ht ! slot h ht k)"
    by (simp add: contains_some)
  from delete_present_length [OF Cons.prems(1,2) present]
  have len: "Suc (length_ht ?ht') = length_ht ht"
    by simp
  obtain ht' where step: "delete h ht k = (Inr (), ht')" and ht': "ht' = ?ht'"
    using Cons.prems(1) present by (simp add: delete_some)
  from Cons.prems(1) have ne: "buckets ?ht' \<noteq> []"
    using delete_buckets_length [of h ht k] by auto
  from Cons.prems(2) have uq: "unique_keys ?ht'" by (rule unique_keys_delete)
  have still: "\<forall>k'\<in>set ds. contains h ?ht' k' = Inr True"
  proof
    fix k' assume k': "k' \<in> set ds"
    with Cons.prems(3) have "k' \<noteq> k" by auto
    moreover from k' Cons.prems(4) have "contains h ht k' = Inr True" by simp
    ultimately show "contains h ?ht' k' = Inr True"
      using Cons.prems(1) by (simp add: contains_after_delete contains_some)
  qed
  from Cons.prems(3) have "distinct ds" by simp
  from Cons.IH [OF ne uq this still] obtain ht2 where
    ht2: "delete_calls h ds ?ht' = (Inr (), ht2)" "length_ht ht2 + length ds = length_ht ?ht'"
    by blast
  have "delete_calls h (k # ds) ht = (Inr (), ht2)"
    using ht2(1) by (simp add: step ht' [symmetric])
  with ht2(2) len show ?case by simp
qed

lemma set_calls_none: "buckets ht = [] \<Longrightarrow> set_calls h kvs ht = (Inr (), ht1) \<Longrightarrow> kvs = [] \<and> ht1 = ht"
  by (cases kvs) (auto simp: set_ht_none)

lemma contains_init_false:
  fixes h :: "'k \<Rightarrow> int"
  assumes "0 < n"
  shows "contains h (init n :: ('k, 'v) hashtable) k = Inr False"
proof -
  let ?ht = "init n :: ('k, 'v) hashtable"
  from assms have ne: "buckets ?ht \<noteq> []" by (rule init_nonempty)
  from slot_less [OF ne] have "buckets ?ht ! slot h ?ht k = []" by (rule init_bucket_empty)
  with ne show ?thesis by (simp add: contains_some)
qed





text \<open>The reachable tables are the tables that a sequence of calls makes of a new table.\<close>

lemma reachable_run: "reachable h (run h calls (init n))"
proof (induction calls rule: rev_induct)
  case Nil
  show ?case by (simp add: run_def reach_init)
next
  case (snoc c calls)
  then show ?case by (cases c) (simp_all add: run_def reach_set reach_delete)
qed

lemma reachable_is_run: "reachable h ht \<Longrightarrow> \<exists>n calls. ht = run h calls (init n)"
proof (induction rule: reachable.induct)
  case (reach_init init_size)
  have "init init_size = run h [] (init init_size)" by (simp add: run_def)
  then show ?case by blast
next
  case (reach_set ht key "value")
  then obtain n calls where "ht = run h calls (init n)" by blast
  then have "snd (set_ht h ht key value) = run h (calls @ [Set_call key value]) (init n)"
    by (simp add: run_def)
  then show ?case by blast
next
  case (reach_delete ht key)
  then obtain n calls where "ht = run h calls (init n)" by blast
  then have "snd (delete h ht key) = run h (calls @ [Delete_call key]) (init n)"
    by (simp add: run_def)
  then show ?case by blast
qed


section \<open>The claims\<close>

text \<open>Claim C1. For every key K and value V, \<open>set(K, V)\<close> on a table with a positive
  number of buckets returns normally, and on the table it leaves \<open>get(K)\<close> returns V and
  \<open>contains(K)\<close> returns True. The table is any table with a bucket, whatever its chains
  hold.\<close>
theorem set_then_get_contains:
  assumes "0 < length (buckets ht)"
  shows "\<exists>ht'. set_ht h ht k v = (Inr (), ht') \<and> get h ht' k = Inr v \<and> contains h ht' k = Inr True"
  using assms by (intro set_get_contains) auto

text \<open>The default table of eight buckets, key 1, value 10.\<close>
theorem set_then_get_contains_witness:
  "0 < length (buckets (init_default :: (int, int) hashtable)) \<and>
   (\<exists>ht'. set_ht (\<lambda>k. k) init_default (1::int) (10::int) = (Inr (), ht') \<and>
          get (\<lambda>k. k) ht' 1 = Inr 10 \<and> contains (\<lambda>k. k) ht' 1 = Inr True)"
proof -
  have p: "0 < length (buckets (init_default :: (int, int) hashtable))"
    by (simp add: init_default_def init_buckets)
  from p set_then_get_contains [OF p] show ?thesis by blast
qed

text \<open>Claim C2. Every table that \<open>set\<close> and \<open>delete\<close> calls make of a new table holds at
  most one entry for each key, over all its chains: the keys that \<open>keys()\<close> lists are
  pairwise distinct. The proof is by rule induction over the calls, on the invariant that
  no bucket holds a key twice and every entry is in the bucket of its key; \<open>set\<close> keeps it
  because it removes the entries of the key from the bucket before the new pair stays.\<close>
theorem reachable_one_entry_per_key:
  assumes "reachable h ht"
  shows "distinct (keys ht)"
  using assms by (rule reachable_distinct_keys)

text \<open>A table of two buckets on which key 1 was set twice.\<close>
theorem reachable_one_entry_per_key_witness:
  "reachable (\<lambda>k. k) (snd (set_ht (\<lambda>k. k) (snd (set_ht (\<lambda>k. k) (init 2) (1::int) (10::int))) 1 20)) \<and>
   distinct (keys (snd (set_ht (\<lambda>k. k) (snd (set_ht (\<lambda>k. k) (init 2) (1::int) (10::int))) 1 20)))"
proof -
  have r: "reachable (\<lambda>k. k) (snd (set_ht (\<lambda>k. k) (snd (set_ht (\<lambda>k. k) (init 2) (1::int) (10::int))) 1 20))"
    by (intro reachable.intros)
  from r reachable_one_entry_per_key [OF r] show ?thesis by simp
qed

text \<open>Claim C3. For every key K and values V1, V2: after \<open>set(K, V1)\<close> has returned, leaving
  the table \<open>ht1\<close>, \<open>set(K, V2)\<close> returns too, \<open>get(K)\<close> then returns V2, and \<open>length()\<close> is
  after the second call what it was before it.\<close>
theorem overwrite_keeps_length:
  assumes "set_ht h ht k v1 = (Inr (), ht1)"
  shows "\<exists>ht2. set_ht h ht1 k v2 = (Inr (), ht2) \<and> get h ht2 k = Inr v2 \<and>
               length_ht ht2 = length_ht ht1"
proof -
  from assms have ne: "buckets ht \<noteq> []" by (rule set_ht_ok_buckets)
  from set_get_contains [OF ne, of h k v1] assms have c: "contains h ht1 k = Inr True"
    by auto
  from assms set_buckets_length [of h ht k v1] ne have ne1: "buckets ht1 \<noteq> []"
    by auto
  from c ne1 have "k \<in> fst ` set (buckets ht1 ! slot h ht1 k)"
    by (simp add: contains_some)
  from set_present_length [OF ne1 this] have "length_ht (snd (set_ht h ht1 k v2)) = length_ht ht1" .
  with set_get_contains [OF ne1, of h k v2] show ?thesis by auto
qed

text \<open>A new table of two buckets: key 1 set to 10, then to 20.\<close>
theorem overwrite_keeps_length_witness:
  "set_ht (\<lambda>k. k) (init 2 :: (int, int) hashtable) 1 10 = (Inr (), \<lparr>buckets = [[], [(1, 10)]]\<rparr>) \<and>
   (\<exists>ht2. set_ht (\<lambda>k. k) (\<lparr>buckets = [[], [(1, 10)]]\<rparr> :: (int, int) hashtable) 1 20 = (Inr (), ht2) \<and>
          get (\<lambda>k. k) ht2 1 = Inr 20 \<and>
          length_ht ht2 = length_ht (\<lparr>buckets = [[], [(1, 10)]]\<rparr> :: (int, int) hashtable))"
proof -
  have p: "set_ht (\<lambda>k. k) (init 2 :: (int, int) hashtable) 1 10 = (Inr (), \<lparr>buckets = [[], [(1, 10)]]\<rparr>)"
    by code_simp
  from p overwrite_keeps_length [OF p, of 20] show ?thesis by blast
qed




text \<open>Claim C5, as stated, fails: constructing a table with \<open>init_size = 0\<close> raises nothing
  and is guarded by nothing; it returns the table without buckets.\<close>
theorem init_nonpositive_succeeds:
  "init 0 = (\<lparr>buckets = []\<rparr> :: (int, int) hashtable)"
  by (simp add: init_def)

text \<open>Claim C5, amended. Constructing a table never fails: \<open>init\<close> has no error to
  return. It allocates one empty chain for each element of \<open>range(init_size)\<close>: exactly
  \<open>init_size\<close> of them when \<open>init_size\<close> is positive, none when it is zero or negative.\<close>
theorem init_allocates:
  "buckets (init init_size) = replicate (nat init_size) LinkedList \<and>
   int (length (buckets (init init_size))) = max 0 init_size"
  by (simp add: init_buckets LinkedList_def)




text \<open>Claim C7. Starting from a new table, after N \<open>set\<close> calls with N pairwise distinct
  keys have returned, \<open>length()\<close> returns N; the \<open>delete\<close> calls for M distinct keys
  among them then return too, and \<open>length()\<close> returns N - M.\<close>
theorem length_counts_entries:
  fixes kvs :: "('k \<times> 'v) list"
  assumes "distinct (map fst kvs)" and "set_calls h kvs (init init_size) = (Inr (), ht1)"
    and "distinct ds" and "set ds \<subseteq> fst ` set kvs"
  shows "length_ht ht1 = length kvs \<and>
         (\<exists>ht2. delete_calls h ds ht1 = (Inr (), ht2) \<and> length_ht ht2 = length kvs - length ds)"
proof (cases "0 < init_size")
  case False
  then have "buckets (init init_size) = []" by (simp add: init_buckets)
  from set_calls_none [OF this assms(2)] have "kvs = []" "ht1 = init init_size" by simp_all
  with assms(4) show ?thesis by (simp add: length_ht_init)
next
  case True
  then have ne: "buckets (init init_size) \<noteq> []" by (rule init_nonempty)
  have empty: "contains h (init init_size :: ('k, 'v) hashtable) k = Inr False" for k
    using True by (rule contains_init_false)
  then have "\<forall>k\<in>fst ` set kvs. contains h (init init_size :: ('k, 'v) hashtable) k = Inr False"
    by simp
  from set_calls_fresh [OF ne unique_keys_init assms(1) this] assms(2)
  have ht1: "buckets ht1 \<noteq> []" "unique_keys ht1" "length_ht ht1 = length kvs"
    "\<forall>k. contains h ht1 k = Inr (k \<in> fst ` set kvs)"
    by (auto simp: length_ht_init empty)
  from ht1(4) assms(4) have "\<forall>k\<in>set ds. contains h ht1 k = Inr True" by auto
  from delete_calls_present [OF ht1(1,2) assms(3) this] ht1(3) show ?thesis
    by auto
qed

text \<open>Three keys set on a table of two buckets, two of them deleted.\<close>
theorem length_counts_entries_witness:
  "distinct (map fst [(1::int, 10::int), (2, 20), (3, 30)]) \<and>
   set_calls (\<lambda>k. k) [(1::int, 10::int), (2, 20), (3, 30)] (init 2)
     = (Inr (), \<lparr>buckets = [[(2, 20)], [(1, 10), (3, 30)]]\<rparr>) \<and>
   distinct [3, 1 :: int] \<and> set [3, 1] \<subseteq> fst ` set [(1::int, 10::int), (2, 20), (3, 30)] \<and>
   length_ht \<lparr>buckets = [[(2::int, 20::int)], [(1, 10), (3, 30)]]\<rparr>
     = length [(1::int, 10::int), (2, 20), (3, 30)] \<and>
   (\<exists>ht2. delete_calls (\<lambda>k. k) [3, 1] \<lparr>buckets = [[(2::int, 20::int)], [(1, 10), (3, 30)]]\<rparr>
            = (Inr (), ht2) \<and>
          length_ht ht2 = length [(1::int, 10::int), (2, 20), (3, 30)] - length [3, 1 :: int])"
proof -
  have a: "distinct (map fst [(1::int, 10::int), (2, 20), (3, 30)])" by simp
  have b: "set_calls (\<lambda>k. k) [(1::int, 10::int), (2, 20), (3, 30)] (init 2)
     = (Inr (), \<lparr>buckets = [[(2, 20)], [(1, 10), (3, 30)]]\<rparr>)" by code_simp
  have c: "distinct [3, 1 :: int]" by simp
  have d: "set [3, 1] \<subseteq> fst ` set [(1::int, 10::int), (2, 20), (3, 30)]" by simp
  from a b c d length_counts_entries [OF a b c d] show ?thesis by blast
qed




text \<open>The chain's delete does fail, in the model as in the spec, when the pair is not in the
  chain: the exception of claim C9 is a branch of the iteration, which the table's own
  scans never take.\<close>

lemma delete_loop_foreign_scan:
  "delete_loop (1::int) [(1, 2::int)] [] = (Inl ValueNotFound, [])"
  by (simp add: chain_delete_def)

text \<open>Claim C9. \<open>HashTable.delete\<close> never raises the chain's \<open>ValueNotFound\<close>, on any table
  (reachable or not) and for any key: each pair it passes to the chain's delete was read
  from that chain and is still in it, so the iteration over a bucket's own items ends
  without an exception.\<close>
theorem chain_delete_never_fails:
  "fst (delete h ht key) \<noteq> Inl ValueNotFound \<and>
   fst (delete_loop key (chain_items bucket) bucket) = Inr ()"
  by (cases "buckets ht = []") (simp_all add: delete_none delete_some chain_items_def delete_loop_self)

text \<open>Claim C10. Constructing a table with \<open>init_size \<le> 0\<close> succeeds and gives a table with
  no buckets; on it \<open>_bucket_index\<close> divides by zero, so that \<open>get_bucket\<close>, \<open>get\<close>,
  \<open>contains\<close>, \<open>set\<close> and \<open>delete\<close> raise \<open>ZeroDivisionError\<close> for every key; \<open>set\<close> and
  \<open>delete\<close> leave the table as it is, so this stays true after any number of calls.\<close>
theorem zero_buckets_undefined:
  fixes h :: "'k \<Rightarrow> int" and v :: 'v
  assumes "init_size \<le> 0"
  shows "buckets (init init_size :: ('k, 'v) hashtable) = [] \<and>
         bucket_index h (init init_size :: ('k, 'v) hashtable) k = Inl ZeroDivisionError \<and>
         get_bucket h (init init_size :: ('k, 'v) hashtable) k = Inl ZeroDivisionError \<and>
         get h (init init_size :: ('k, 'v) hashtable) k = Inl ZeroDivisionError \<and>
         contains h (init init_size :: ('k, 'v) hashtable) k = Inl ZeroDivisionError \<and>
         set_ht h (init init_size) k v = (Inl ZeroDivisionError, init init_size) \<and>
         delete h (init init_size :: ('k, 'v) hashtable) k = (Inl ZeroDivisionError, init init_size)"
proof -
  from assms have "buckets (init init_size :: ('k, 'v) hashtable) = []" by (simp add: init_buckets)
  then show ?thesis
    by (simp add: bucket_index_def get_bucket_none get_none contains_none set_ht_none delete_none)
qed

text \<open>\<open>init_size = -3\<close>.\<close>
theorem zero_buckets_undefined_witness:
  "(- 3 :: int) \<le> 0 \<and>
   buckets (init (- 3) :: (int, int) hashtable) = [] \<and>
   bucket_index (\<lambda>k. k) (init (- 3) :: (int, int) hashtable) 1 = Inl ZeroDivisionError \<and>
   get_bucket (\<lambda>k. k) (init (- 3) :: (int, int) hashtable) 1 = Inl ZeroDivisionError \<and>
   get (\<lambda>k. k) (init (- 3) :: (int, int) hashtable) 1 = Inl ZeroDivisionError \<and>
   contains (\<lambda>k. k) (init (- 3) :: (int, int) hashtable) 1 = Inl ZeroDivisionError \<and>
   set_ht (\<lambda>k. k) (init (- 3) :: (int, int) hashtable) 1 10 = (Inl ZeroDivisionError, init (- 3)) \<and>
   delete (\<lambda>k. k) (init (- 3) :: (int, int) hashtable) 1 = (Inl ZeroDivisionError, init (- 3))"
proof -
  have p: "(- 3 :: int) \<le> 0" by simp
  from p zero_buckets_undefined [OF p, of "\<lambda>k. k" 1 "10::int"] show ?thesis by simp
qed


end
